theory Spec2Isabelle
  imports Main "HOL-Library.Multiset"
begin

section \<open>Configuration: process.env and the two client option objects\<close>

text \<open>
  \<^verbatim>\<open>process.env\<close> maps variable names to strings; a variable that is not set reads as
  \<^verbatim>\<open>undefined\<close>.
\<close>

type_synonym env = "string \<rightharpoonup> string"

text \<open>
  JavaScript's \<^verbatim>\<open>a || b\<close> for \<^verbatim>\<open>a\<close> a string or \<^verbatim>\<open>undefined\<close>: the result is
  \<^verbatim>\<open>a\<close> when \<^verbatim>\<open>a\<close> is truthy, otherwise \<^verbatim>\<open>b\<close>. The falsy values of that type are
  \<^verbatim>\<open>undefined\<close> and the empty string.
\<close>

definition js_or :: "string option \<Rightarrow> string \<Rightarrow> string" where
  "js_or a b = (case a of None \<Rightarrow> b | Some s \<Rightarrow> if s = [] then b else s)"

record pg_options =
  host :: string
  user :: string
  password :: string
  database :: string

text \<open>
  \<^verbatim>\<open>new Client({ host: process.env.DB_HOST || "db", user: process.env.DB_USER || "postgres",
  password: process.env.DB_PASSWORD || "password", database: process.env.DB_NAME || "postgres" })\<close>
\<close>

definition pgClient :: "env \<Rightarrow> pg_options" where
  "pgClient e =
     \<lparr> host = js_or (e ''DB_HOST'') ''db'',
       user = js_or (e ''DB_USER'') ''postgres'',
       password = js_or (e ''DB_PASSWORD'') ''password'',
       database = js_or (e ''DB_NAME'') ''postgres'' \<rparr>"

record redis_options =
  url :: string

text \<open>\<^verbatim>\<open>redis.createClient({ url: "redis://cache:6379" })\<close>: the environment is not read.\<close>

definition redisClient :: "env \<Rightarrow> redis_options" where
  "redisClient e = \<lparr> url = ''redis://cache:6379'' \<rparr>"

section \<open>The backing stores\<close>

text \<open>
  The cache and the relational store are external services. The cache is a keyspace of
  integer counters together with the list of commands it has executed; its increment
  creates an absent key at 0 and adds 1 in one atomic step, and the call is rejected when
  the store cannot be reached. The relational store is the list of statements it has
  received.

  Counters are mathematical integers here. The real store keeps signed 64-bit values and
  refuses an increment at \<open>2^63 - 1\<close>, and the client hands the reply to the program as a
  double, which is exact up to \<open>2^53\<close>. The model is therefore exact for counters in the
  safe range \<open>- (2^53 - 1) .. 2^53 - 1\<close>; the statement about the text of a single reply
  carries that bound.
\<close>

datatype rejection = CacheError

datatype command = REDIS_INCR string

record stores =
  redis_up :: bool
  keyspace :: "string \<rightharpoonup> int"
  redis_received :: "command list"
  pg_received :: "string list"

definition redis_incr :: "string \<Rightarrow> stores \<Rightarrow> (rejection + int) \<times> stores" where
  "redis_incr key w =
     (if redis_up w then
        (let v = (case keyspace w key of None \<Rightarrow> 0 | Some n \<Rightarrow> n) + 1
         in (Inr v, w\<lparr> keyspace := (keyspace w)(key \<mapsto> v),
                        redis_received := redis_received w @ [REDIS_INCR key] \<rparr>))
      else (Inl CacheError, w))"

fun exec :: "command \<Rightarrow> stores \<Rightarrow> (rejection + int) \<times> stores" where
  "exec (REDIS_INCR key) w = redis_incr key w"

section \<open>Async functions\<close>

text \<open>
  An async function either returns, or suspends at an \<^verbatim>\<open>await\<close> on a client call and goes
  on with the value the call resolves to. There is no \<^verbatim>\<open>try\<close>/\<^verbatim>\<open>catch\<close> in the program, so
  a rejected call ends the function with that rejection.
\<close>

datatype 'a async = Return 'a | Await command "int \<Rightarrow> 'a async"

primrec run :: "'a async \<Rightarrow> stores \<Rightarrow> (rejection + 'a) \<times> stores" where
  "run (Return x) w = (Inr x, w)"
| "run (Await c k) w =
     (case exec c w of
        (Inl e, w') \<Rightarrow> (Inl e, w')
      | (Inr v, w') \<Rightarrow> run (k v) w')"

section \<open>Rendering a number in a template literal\<close>

text \<open>
  \<^verbatim>\<open>${visits}\<close> applies Number's ToString. For an integer that is the decimal digits, most
  significant first, with a leading minus sign below zero.
\<close>

definition digit_char :: "nat \<Rightarrow> char" where
  "digit_char d = ''0123456789'' ! d"

function digits :: "nat \<Rightarrow> string" where
  "digits n = (if n < 10 then [digit_char n] else digits (n div 10) @ [digit_char (n mod 10)])"
  by pat_completeness auto
termination
  by (relation "measure id") auto

declare digits.simps [simp del]

definition Number_toString :: "int \<Rightarrow> string" where
  "Number_toString n = (if n < 0 then CHR ''-'' # digits (nat (- n)) else digits (nat n))"

text \<open>
  The number itself is a double. Up to \<^verbatim>\<open>Number.MAX_SAFE_INTEGER\<close> in magnitude every
  integer is a double and is rendered digit for digit, which is what \<open>Number_toString\<close>
  computes; beyond it the rendering is that of a rounded value.
\<close>

definition MAX_SAFE_INTEGER :: int where
  "MAX_SAFE_INTEGER = 2 ^ 53 - 1"

text \<open>Reading a decimal literal back, to say what a rendering denotes.\<close>

definition is_digit :: "char \<Rightarrow> bool" where
  "is_digit c = (c \<in> set ''0123456789'')"

definition digit_value :: "char \<Rightarrow> nat" where
  "digit_value c = of_char c - 48"

definition parse_digits :: "string \<Rightarrow> nat" where
  "parse_digits s = foldl (\<lambda>a c. 10 * a + digit_value c) 0 s"

definition is_integer_literal :: "string \<Rightarrow> bool" where
  "is_integer_literal s =
     (case s of
        [] \<Rightarrow> False
      | c # cs \<Rightarrow> if c = CHR ''-'' then cs \<noteq> [] \<and> list_all is_digit cs
                  else list_all is_digit (c # cs))"

definition parse_integer :: "string \<Rightarrow> int" where
  "parse_integer s =
     (case s of
        [] \<Rightarrow> 0
      | c # cs \<Rightarrow> if c = CHR ''-'' then - int (parse_digits cs) else int (parse_digits (c # cs)))"

section \<open>The HTTP application\<close>

datatype http_method = GET | HEAD | POST | PUT | DELETE | PATCH | OPTIONS

text \<open>
  A request as the router and the handler use it: its method and its path. It carries no
  header fields, so it stands for an unconditional request.
\<close>

record request =
  req_method :: http_method
  path :: string

record response =
  status :: nat
  content_type :: string
  body :: string

text \<open>The rocket, U+1F680, as its four UTF-8 bytes.\<close>

definition rocket :: string where
  "rocket = [CHR 0xF0, CHR 0x9F, CHR 0x9A, CHR 0x80]"

text \<open>The template literal of the handler.\<close>

definition greeting :: "int \<Rightarrow> string" where
  "greeting visits = ''Hello '' @ rocket @ '' Visits: '' @ Number_toString visits"

text \<open>
  \<^verbatim>\<open>res.send(text)\<close> with a string, on a response whose status and type were never set:
  status 200, the framework's default type for a string, which is HTML, and the text as
  the body; the framework leaves the body out when the request is a HEAD.
\<close>

definition res_send :: "request \<Rightarrow> string \<Rightarrow> response" where
  "res_send req text =
     \<lparr> status = 200, content_type = ''text/html; charset=utf-8'',
       body = (if req_method req = HEAD then [] else text) \<rparr>"

text \<open>
  \<^verbatim>\<open>async (req, res) => { const visits = await redisClient.incr("visits");
  res.send(`Hello ... Visits: ${visits}`); }\<close>
\<close>

definition handler :: "request \<Rightarrow> response async" where
  "handler req = Await (REDIS_INCR ''visits'') (\<lambda>visits. Return (res_send req (greeting visits)))"

type_synonym route = "http_method \<times> string \<times> (request \<Rightarrow> response async)"

text \<open>\<^verbatim>\<open>app.get("/", handler)\<close> is the only registration.\<close>

definition app :: "route list" where
  "app = [(GET, ''/'', handler)]"

text \<open>
  The framework's router is not part of the program. A request path equal to the
  registered path matches it in every version; which further paths a version and its
  settings take for a registered path (a doubled or trailing slash, say) is left open as
  the parameter \<open>fw\<close>.
\<close>

type_synonym path_rule = "string \<Rightarrow> string \<Rightarrow> bool"

definition path_matches :: "path_rule \<Rightarrow> string \<Rightarrow> string \<Rightarrow> bool" where
  "path_matches fw p pth = (pth = p \<or> fw p pth)"

text \<open>
  A route serves the requests of its own method on a matching path, and a GET route also
  serves the HEAD requests there. To an OPTIONS request that no route serves, on a path
  that some route matches, the framework itself answers 200 with the methods of those
  routes in the Allow header; to any other request that no route serves it answers not
  found.
\<close>

fun handles :: "path_rule \<Rightarrow> route \<Rightarrow> request \<Rightarrow> bool" where
  "handles fw (m, p, h) req =
     (path_matches fw p (path req) \<and> (req_method req = m \<or> (m = GET \<and> req_method req = HEAD)))"

fun on_path :: "path_rule \<Rightarrow> request \<Rightarrow> route \<Rightarrow> bool" where
  "on_path fw req (m, p, h) = path_matches fw p (path req)"

fun allowed_methods :: "route \<Rightarrow> http_method list" where
  "allowed_methods (m, p, h) = (if m = GET then [GET, HEAD] else [m])"

text \<open>
  What a request ends in: a response sent by a handler, a rejection that left the handler
  with no response sent, or a reply of the framework's own, the Allow reply or not found.
\<close>

datatype outcome = Replied response | Escaped rejection | Allow "http_method list" | NotFound

datatype routed = Run "response async" | Framework outcome

definition route_request :: "path_rule \<Rightarrow> request \<Rightarrow> routed" where
  "route_request fw req =
     (case find (\<lambda>r. handles fw r req) app of
        Some (m, p, h) \<Rightarrow> Run (h req)
      | None \<Rightarrow>
          (case filter (on_path fw req) app of
             [] \<Rightarrow> Framework NotFound
           | r # rs \<Rightarrow>
               if req_method req = OPTIONS
               then Framework (Allow (concat (map allowed_methods (r # rs))))
               else Framework NotFound))"

definition serve :: "path_rule \<Rightarrow> request \<Rightarrow> stores \<Rightarrow> outcome \<times> stores" where
  "serve fw req w =
     (case route_request fw req of
        Framework out \<Rightarrow> (out, w)
      | Run prog \<Rightarrow>
          (case run prog w of
             (Inl e, w') \<Rightarrow> (Escaped e, w')
           | (Inr r, w') \<Rightarrow> (Replied r, w')))"

definition root_get :: request where
  "root_get = \<lparr> req_method = GET, path = ''/'' \<rparr>"

text \<open>Requests served one after the other, each to completion before the next starts.\<close>

fun serve_all :: "path_rule \<Rightarrow> request list \<Rightarrow> stores \<Rightarrow> outcome list \<times> stores" where
  "serve_all fw [] w = ([], w)"
| "serve_all fw (r # rs) w =
     (case serve fw r w of (out, w') \<Rightarrow>
        (case serve_all fw rs w' of (outs, w'') \<Rightarrow> (out # outs, w'')))"

text \<open>Two routers: one that takes the registered path only, one that also takes it with a
  slash appended.\<close>

definition exact_paths :: path_rule where
  "exact_paths = (\<lambda>p pth. False)"

definition slash_tolerant :: path_rule where
  "slash_tolerant = (\<lambda>p pth. pth = p @ ''/'')"

text \<open>
  What a client reads off a reply: the counter value shown after the fixed greeting of a
  200 response, if the reply has that shape.
\<close>

definition shown_visits :: "outcome \<Rightarrow> int option" where
  "shown_visits out =
     (case out of
        Replied r \<Rightarrow>
          (if status r = 200
              \<and> take 19 (body r)
                  = ''Hello '' @ [CHR 0xF0, CHR 0x9F, CHR 0x9A, CHR 0x80] @ '' Visits: ''
              \<and> is_integer_literal (drop 19 (body r))
           then Some (parse_integer (drop 19 (body r))) else None)
      | Escaped e \<Rightarrow> None
      | Allow ms \<Rightarrow> None
      | NotFound \<Rightarrow> None)"

text \<open>The counter as the store holds it, an absent key counting as 0.\<close>

definition counter :: "stores \<Rightarrow> int" where
  "counter w = (case keyspace w ''visits'' of None \<Rightarrow> 0 | Some n \<Rightarrow> n)"

section \<open>Requests in flight at the same time\<close>

text \<open>
  The process is single-threaded: a handler runs until it returns or reaches an
  \<^verbatim>\<open>await\<close>, and goes on in a later turn once the awaited call has settled. Between the
  two, other requests may arrive, and the store executes the commands it was sent one at
  a time. A request in flight is either waiting for the store to execute its command, or
  holds the settled result and waits for its turn to go on.
\<close>

datatype task =
    Suspended command "int \<Rightarrow> response async"
  | Settled "rejection + int" "int \<Rightarrow> response async"

datatype event =
    Accept nat request
  | Exec nat
  | Resume nat

record server =
  backing :: stores
  inflight :: "(nat \<times> task) list"
  replies :: "(nat \<times> outcome) list"

definition set_task :: "nat \<Rightarrow> task \<Rightarrow> (nat \<times> task) list \<Rightarrow> (nat \<times> task) list" where
  "set_task i t xs = map (\<lambda>(j, u). if j = i then (j, t) else (j, u)) xs"

definition drop_task :: "nat \<Rightarrow> (nat \<times> task) list \<Rightarrow> (nat \<times> task) list" where
  "drop_task i xs = filter (\<lambda>(j, u). j \<noteq> i) xs"

text \<open>Run the computation of request \<open>i\<close> up to its reply or its next \<^verbatim>\<open>await\<close>.\<close>

fun advance :: "nat \<Rightarrow> response async \<Rightarrow> server \<Rightarrow> server" where
  "advance i (Return r) s = s\<lparr> replies := replies s @ [(i, Replied r)] \<rparr>"
| "advance i (Await c k) s = s\<lparr> inflight := inflight s @ [(i, Suspended c k)] \<rparr>"

text \<open>
  One step of the system; \<open>None\<close> when the event cannot happen in that state: a request
  identifier is used once, the store executes only a command that is waiting, and a
  handler goes on only once its call has settled.
\<close>

fun step :: "path_rule \<Rightarrow> event \<Rightarrow> server \<Rightarrow> server option" where
  "step fw (Accept i req) s =
     (if i \<in> fst ` set (inflight s) \<or> i \<in> fst ` set (replies s) then None
      else (case route_request fw req of
              Framework out \<Rightarrow> Some (s\<lparr> replies := replies s @ [(i, out)] \<rparr>)
            | Run prog \<Rightarrow> Some (advance i prog s)))"
| "step fw (Exec i) s =
     (case map_of (inflight s) i of
        Some (Suspended c k) \<Rightarrow>
          (case exec c (backing s) of (r, w') \<Rightarrow>
             Some (s\<lparr> backing := w', inflight := set_task i (Settled r k) (inflight s) \<rparr>))
      | _ \<Rightarrow> None)"
| "step fw (Resume i) s =
     (case map_of (inflight s) i of
        Some (Settled r k) \<Rightarrow>
          (case r of
             Inl e \<Rightarrow> Some (s\<lparr> inflight := drop_task i (inflight s),
                                 replies := replies s @ [(i, Escaped e)] \<rparr>)
           | Inr v \<Rightarrow> Some (advance i (k v) (s\<lparr> inflight := drop_task i (inflight s) \<rparr>)))
      | _ \<Rightarrow> None)"

fun steps :: "path_rule \<Rightarrow> event list \<Rightarrow> server \<Rightarrow> server option" where
  "steps fw [] s = Some s"
| "steps fw (e # es) s =
     (case step fw e s of None \<Rightarrow> None | Some s' \<Rightarrow> steps fw es s')"

definition fresh :: "stores \<Rightarrow> server" where
  "fresh w = \<lparr> backing = w, inflight = [], replies = [] \<rparr>"

text \<open>Counting over a schedule: arrivals, executed increments, and the number of
  increments executed up to and including the one of request \<open>i\<close>.\<close>

fun is_exec :: "event \<Rightarrow> bool" where
  "is_exec (Exec i) = True"
| "is_exec e = False"

fun is_accept :: "event \<Rightarrow> bool" where
  "is_accept (Accept i req) = True"
| "is_accept e = False"

fun accepts_only :: "request \<Rightarrow> event \<Rightarrow> bool" where
  "accepts_only r (Accept i req) = (req = r)"
| "accepts_only r e = True"

fun rank :: "nat \<Rightarrow> event list \<Rightarrow> nat" where
  "rank i [] = 0"
| "rank i (e # es) =
     (if e = Exec i then 1 else (if is_exec e then 1 else 0) + rank i es)"

text \<open>
  Bookkeeping for reasoning about a schedule of GET requests to the root path: the values
  held by settled tasks, the continuation every such request is suspended with, and the
  invariant that ties the state to the schedule run so far.
\<close>

definition execs :: "event list \<Rightarrow> nat" where
  "execs es = length (filter is_exec es)"

definition arrivals :: "event list \<Rightarrow> nat" where
  "arrivals es = length (filter is_accept es)"

fun task_values :: "task \<Rightarrow> int list" where
  "task_values (Suspended c k) = []"
| "task_values (Settled (Inl e) k) = []"
| "task_values (Settled (Inr v) k) = [v]"

definition held :: "(nat \<times> task) list \<Rightarrow> int list" where
  "held xs = concat (map (\<lambda>(i, t). task_values t) xs)"

definition root_resume :: "int \<Rightarrow> response async" where
  "root_resume = (\<lambda>visits. Return (res_send root_get (greeting visits)))"

definition sched_inv :: "event list \<Rightarrow> server \<Rightarrow> bool" where
  "sched_inv es s \<longleftrightarrow>
     redis_up (backing s) \<and>
     counter (backing s) = int (execs es) \<and>
     distinct (map fst (inflight s)) \<and>
     (\<forall>i t. (i, t) \<in> set (inflight s) \<longrightarrow>
        (t = Suspended (REDIS_INCR ''visits'') root_resume \<and> Exec i \<notin> set es) \<or>
        (t = Settled (Inr (int (rank i es))) root_resume \<and> Exec i \<in> set es)) \<and>
     (\<forall>i out. (i, out) \<in> set (replies s) \<longrightarrow>
        out = Replied \<lparr> status = 200, content_type = ''text/html; charset=utf-8'',
            body = greeting (int (rank i es)) \<rparr> \<and> Exec i \<in> set es) \<and>
     (\<forall>i. Exec i \<in> set es \<longrightarrow> i \<in> fst ` set (inflight s) \<or> i \<in> fst ` set (replies s)) \<and>
     mset (map (\<lambda>(i, out). shown_visits out) (replies s)) + mset (map Some (held (inflight s)))
       = mset (map (\<lambda>n. Some (int n)) [1..<Suc (execs es)]) \<and>
     length (replies s) + length (inflight s) = arrivals es"

section \<open>Startup: the module's top level\<close>

text \<open>
  The statements of the top level that act on the outside, in source order. Both
  \<^verbatim>\<open>connect()\<close> calls are bare expression statements: the promise each returns is dropped,
  with no \<^verbatim>\<open>await\<close>, \<^verbatim>\<open>then\<close> or \<^verbatim>\<open>catch\<close>, and no error listener is put on either client.
\<close>

datatype client = Pg | Redis

datatype call = PG_CONNECT pg_options | REDIS_CONNECT redis_options

datatype stmt =
    Fire call
  | APP_GET string
  | APP_LISTEN nat string

datatype conn = Closed | Pending | Connected | Failed

record process =
  pg_conn :: conn
  redis_conn :: conn
  routes :: "(http_method \<times> string) list"
  listening :: "nat option"
  stdout :: "string list"
  performed :: "stmt list"
  exit_code :: "nat option"

definition main :: "env \<Rightarrow> stmt list" where
  "main e =
     [ Fire (PG_CONNECT (pgClient e)),
       Fire (REDIS_CONNECT (redisClient e)),
       APP_GET ''/'',
       APP_LISTEN 3000 ''Server running on port 3000'' ]"

fun client_of :: "call \<Rightarrow> client" where
  "client_of (PG_CONNECT opts) = Pg"
| "client_of (REDIS_CONNECT opts) = Redis"

fun conn_of :: "client \<Rightarrow> process \<Rightarrow> conn" where
  "conn_of Pg p = pg_conn p"
| "conn_of Redis p = redis_conn p"

fun set_conn :: "client \<Rightarrow> conn \<Rightarrow> process \<Rightarrow> process" where
  "set_conn Pg c p = p\<lparr> pg_conn := c \<rparr>"
| "set_conn Redis c p = p\<lparr> redis_conn := c \<rparr>"

text \<open>
  One statement of the top level. A fired call starts the attempt and returns at once, so
  the next statement runs while the attempt is pending.
\<close>

fun perform :: "stmt \<Rightarrow> process \<Rightarrow> process" where
  "perform (Fire c) p = (set_conn (client_of c) Pending p)\<lparr> performed := performed p @ [Fire c] \<rparr>"
| "perform (APP_GET pth) p =
     p\<lparr> routes := routes p @ [(GET, pth)], performed := performed p @ [APP_GET pth] \<rparr>"
| "perform (APP_LISTEN port msg) p =
     p\<lparr> listening := Some port, stdout := stdout p @ [msg],
        performed := performed p @ [APP_LISTEN port msg] \<rparr>"

fun boot :: "stmt list \<Rightarrow> process \<Rightarrow> process" where
  "boot [] p = p"
| "boot (st # sts) p = boot sts (perform st p)"

definition initial :: process where
  "initial = \<lparr> pg_conn = Closed, redis_conn = Closed, routes = [], listening = None,
               stdout = [], performed = [], exit_code = None \<rparr>"

text \<open>
  A pending attempt settles in a later turn of the event loop. Success leaves the process
  as it is, connected. On failure nothing of the program is there to take the rejection,
  and the runtime of the image the program is built on (Node 24) ends a process on an
  unhandled rejection or error event with exit code 1; a process that has ended no
  longer listens. Nothing settles twice, and nothing happens in a process that has ended.
\<close>

definition settle :: "client \<Rightarrow> bool \<Rightarrow> process \<Rightarrow> process" where
  "settle c ok p =
     (if exit_code p \<noteq> None \<or> conn_of c p \<noteq> Pending then p
      else if ok then set_conn c Connected p
      else (set_conn c Failed p)\<lparr> listening := None, exit_code := Some 1 \<rparr>)"

section \<open>Properties of the configuration\<close>

lemma js_or_unset: "js_or None d = d"
  by (simp add: js_or_def)

lemma js_or_set: "v \<noteq> [] \<Longrightarrow> js_or (Some v) d = v"
  by (simp add: js_or_def)

lemma js_or_empty: "js_or (Some []) d = d"
  by (simp add: js_or_def)

text \<open>
  C10. The cache client's connection URL is the constant \<^verbatim>\<open>redis://cache:6379\<close> in every
  environment: nothing in the environment changes the cache address.
\<close>

theorem redis_url_fixed: "url (redisClient e) = ''redis://cache:6379''"
  by (simp add: redisClient_def)

text \<open>
  C9, as stated, promises the value of DB_PASSWORD (and of the three other variables)
  whenever the variable is set. A variable set to the empty string is set, and the
  \<^verbatim>\<open>||\<close> of the source falls back to the default there.
\<close>

theorem pg_password_empty_counterexample:
  "(Map.empty(''DB_PASSWORD'' \<mapsto> [])) ''DB_PASSWORD'' = Some [] \<and>
   password (pgClient (Map.empty(''DB_PASSWORD'' \<mapsto> []))) = ''password'' \<and>
   password (pgClient (Map.empty(''DB_PASSWORD'' \<mapsto> []))) \<noteq> []"
  by (simp add: pgClient_def js_or_empty)

text \<open>
  C9, amended. When a relational override is absent the parameter takes its default: host
  \<^verbatim>\<open>db\<close>, user \<^verbatim>\<open>postgres\<close>, password \<^verbatim>\<open>password\<close>, database \<^verbatim>\<open>postgres\<close>. In every
  environment each parameter equals the value of DB_HOST, DB_USER, DB_PASSWORD, DB_NAME
  respectively when that variable is set to a non-empty string.
\<close>

theorem pg_options_from_env:
  "(e ''DB_HOST'' = None \<longrightarrow> host (pgClient e) = ''db'') \<and>
   (e ''DB_USER'' = None \<longrightarrow> user (pgClient e) = ''postgres'') \<and>
   (e ''DB_PASSWORD'' = None \<longrightarrow> password (pgClient e) = ''password'') \<and>
   (e ''DB_NAME'' = None \<longrightarrow> database (pgClient e) = ''postgres'') \<and>
   (\<forall>v. e ''DB_HOST'' = Some v \<and> v \<noteq> [] \<longrightarrow> host (pgClient e) = v) \<and>
   (\<forall>v. e ''DB_USER'' = Some v \<and> v \<noteq> [] \<longrightarrow> user (pgClient e) = v) \<and>
   (\<forall>v. e ''DB_PASSWORD'' = Some v \<and> v \<noteq> [] \<longrightarrow> password (pgClient e) = v) \<and>
   (\<forall>v. e ''DB_NAME'' = Some v \<and> v \<noteq> [] \<longrightarrow> database (pgClient e) = v)"
  by (simp add: pgClient_def js_or_unset js_or_set)

theorem pg_options_from_env_witness:
  "(Map.empty(''DB_HOST'' \<mapsto> ''pg.internal'', ''DB_NAME'' \<mapsto> ''labs'')) ''DB_HOST''
     = Some ''pg.internal'' \<and>
   (Map.empty(''DB_HOST'' \<mapsto> ''pg.internal'', ''DB_NAME'' \<mapsto> ''labs'')) ''DB_USER'' = None \<and>
   host (pgClient (Map.empty(''DB_HOST'' \<mapsto> ''pg.internal'', ''DB_NAME'' \<mapsto> ''labs'')))
     = ''pg.internal'' \<and>
   user (pgClient (Map.empty(''DB_HOST'' \<mapsto> ''pg.internal'', ''DB_NAME'' \<mapsto> ''labs'')))
     = ''postgres'' \<and>
   password (pgClient (Map.empty(''DB_HOST'' \<mapsto> ''pg.internal'', ''DB_NAME'' \<mapsto> ''labs'')))
     = ''password'' \<and>
   database (pgClient (Map.empty(''DB_HOST'' \<mapsto> ''pg.internal'', ''DB_NAME'' \<mapsto> ''labs'')))
     = ''labs''"
  using pg_options_from_env
    [of "Map.empty(''DB_HOST'' \<mapsto> ''pg.internal'', ''DB_NAME'' \<mapsto> ''labs'')"]
  by simp

text \<open>
  C4, as stated, lets a connection URL given in the environment decide the cache
  address. With REDIS_URL set to another address the client still uses the constant.
\<close>

theorem cache_url_override_counterexample:
  "(Map.empty(''REDIS_URL'' \<mapsto> ''redis://other:6380'')) ''REDIS_URL''
     = Some ''redis://other:6380'' \<and>
   url (redisClient (Map.empty(''REDIS_URL'' \<mapsto> ''redis://other:6380'')))
     \<noteq> ''redis://other:6380''"
  by (simp add: redisClient_def)

text \<open>
  C4, amended. The relational store's host, user, password and database name are each
  overridable through the environment: whenever DB_HOST, DB_USER, DB_PASSWORD or DB_NAME
  is set to a non-empty string, the parameter the program uses equals that value. The
  cache store has no override: its options are the same in every environment.
\<close>

theorem connection_overrides:
  "(\<forall>v. e ''DB_HOST'' = Some v \<and> v \<noteq> [] \<longrightarrow> host (pgClient e) = v) \<and>
   (\<forall>v. e ''DB_USER'' = Some v \<and> v \<noteq> [] \<longrightarrow> user (pgClient e) = v) \<and>
   (\<forall>v. e ''DB_PASSWORD'' = Some v \<and> v \<noteq> [] \<longrightarrow> password (pgClient e) = v) \<and>
   (\<forall>v. e ''DB_NAME'' = Some v \<and> v \<noteq> [] \<longrightarrow> database (pgClient e) = v) \<and>
   redisClient e = \<lparr> url = ''redis://cache:6379'' \<rparr>"
  by (simp add: pgClient_def redisClient_def js_or_set)

theorem connection_overrides_witness:
  "host (pgClient (Map.empty(''DB_HOST'' \<mapsto> ''10.0.0.5'', ''DB_USER'' \<mapsto> ''app'',
      ''DB_PASSWORD'' \<mapsto> ''s3cret'', ''DB_NAME'' \<mapsto> ''visits'',
      ''REDIS_URL'' \<mapsto> ''redis://other:6380''))) = ''10.0.0.5'' \<and>
   user (pgClient (Map.empty(''DB_HOST'' \<mapsto> ''10.0.0.5'', ''DB_USER'' \<mapsto> ''app'',
      ''DB_PASSWORD'' \<mapsto> ''s3cret'', ''DB_NAME'' \<mapsto> ''visits'',
      ''REDIS_URL'' \<mapsto> ''redis://other:6380''))) = ''app'' \<and>
   password (pgClient (Map.empty(''DB_HOST'' \<mapsto> ''10.0.0.5'', ''DB_USER'' \<mapsto> ''app'',
      ''DB_PASSWORD'' \<mapsto> ''s3cret'', ''DB_NAME'' \<mapsto> ''visits'',
      ''REDIS_URL'' \<mapsto> ''redis://other:6380''))) = ''s3cret'' \<and>
   database (pgClient (Map.empty(''DB_HOST'' \<mapsto> ''10.0.0.5'', ''DB_USER'' \<mapsto> ''app'',
      ''DB_PASSWORD'' \<mapsto> ''s3cret'', ''DB_NAME'' \<mapsto> ''visits'',
      ''REDIS_URL'' \<mapsto> ''redis://other:6380''))) = ''visits'' \<and>
   url (redisClient (Map.empty(''DB_HOST'' \<mapsto> ''10.0.0.5'', ''DB_USER'' \<mapsto> ''app'',
      ''DB_PASSWORD'' \<mapsto> ''s3cret'', ''DB_NAME'' \<mapsto> ''visits'',
      ''REDIS_URL'' \<mapsto> ''redis://other:6380''))) = ''redis://cache:6379''"
  using connection_overrides
    [of "Map.empty(''DB_HOST'' \<mapsto> ''10.0.0.5'', ''DB_USER'' \<mapsto> ''app'',
      ''DB_PASSWORD'' \<mapsto> ''s3cret'', ''DB_NAME'' \<mapsto> ''visits'',
      ''REDIS_URL'' \<mapsto> ''redis://other:6380'')"]
  by simp

section \<open>Properties of startup\<close>

lemma boot_main:
  "boot (main e) initial =
     \<lparr> pg_conn = Pending, redis_conn = Pending, routes = [(GET, ''/'')],
       listening = Some 3000, stdout = [''Server running on port 3000''],
       performed = [ Fire (PG_CONNECT (pgClient e)), Fire (REDIS_CONNECT (redisClient e)),
                     APP_GET ''/'', APP_LISTEN 3000 ''Server running on port 3000'' ],
       exit_code = None \<rparr>"
  by (simp add: main_def initial_def)

lemma prefix_cases: "k = 0 \<or> k = 1 \<or> k = 2 \<or> k = Suc 2 \<or> 4 \<le> (k::nat)"
  by arith

lemma boot_prefix:
  "listening (boot (take k (main e)) initial) =
     (if 4 \<le> k then Some 3000 else None) \<and>
   pg_conn (boot (take k (main e)) initial) = (if 1 \<le> k then Pending else Closed) \<and>
   redis_conn (boot (take k (main e)) initial) = (if 2 \<le> k then Pending else Closed)"
  using prefix_cases [of k]
  by (elim disjE) (simp_all add: main_def initial_def)

lemma settle_twice:
  assumes "a \<noteq> b"
  shows "exit_code (settle b okb (settle a oka (boot (main e) initial)))
           = (if oka \<and> okb then None else Some 1)
       \<and> listening (settle b okb (settle a oka (boot (main e) initial)))
           = (if oka \<and> okb then Some 3000 else None)"
  using assms
  by (cases a; cases b; cases oka; cases okb) (simp_all add: boot_main settle_def)

text \<open>
  C7, as stated, has no state transition for a connection failure. The program attaches
  nothing to either connection promise, so a failed attempt is an unhandled rejection,
  and that ends the process: after a failed relational connect the server that was
  listening has exited with code 1.
\<close>

theorem connect_failure_counterexample:
  "listening (boot (main Map.empty) initial) = Some 3000 \<and>
   exit_code (boot (main Map.empty) initial) = None \<and>
   listening (settle Pg False (boot (main Map.empty) initial)) = None \<and>
   exit_code (settle Pg False (boot (main Map.empty) initial)) = Some 1"
  by (simp add: boot_main settle_def)

text \<open>
  C7, amended. At startup the program opens the relational connection, then the cache
  connection, then listens on the fixed port 3000: at no point of the top level is the
  cache attempt started before the relational one, and whenever the server listens both
  attempts have been started and neither has settled. Both calls are fire-and-forget:
  the top level ends listening with both attempts pending. The program defines no
  handling of a connection failure: if either attempt later fails, the process ends
  with exit code 1 and no longer listens; if both succeed, in either order, it stays
  listening on port 3000.
\<close>

theorem startup_sequence:
  "performed (boot (main e) initial) =
     [ Fire (PG_CONNECT (pgClient e)), Fire (REDIS_CONNECT (redisClient e)),
       APP_GET ''/'', APP_LISTEN 3000 ''Server running on port 3000'' ]
   \<and> (\<forall>k. redis_conn (boot (take k (main e)) initial) \<noteq> Closed \<longrightarrow>
          pg_conn (boot (take k (main e)) initial) \<noteq> Closed)
   \<and> (\<forall>k. listening (boot (take k (main e)) initial) \<noteq> None \<longrightarrow>
          pg_conn (boot (take k (main e)) initial) = Pending
          \<and> redis_conn (boot (take k (main e)) initial) = Pending)
   \<and> listening (boot (main e) initial) = Some 3000
   \<and> pg_conn (boot (main e) initial) = Pending
   \<and> redis_conn (boot (main e) initial) = Pending
   \<and> exit_code (boot (main e) initial) = None
   \<and> (\<forall>c. exit_code (settle c False (boot (main e) initial)) = Some 1
          \<and> listening (settle c False (boot (main e) initial)) = None)
   \<and> (\<forall>a b. a \<noteq> b \<longrightarrow>
          exit_code (settle b okb (settle a oka (boot (main e) initial)))
            = (if oka \<and> okb then None else Some 1)
          \<and> listening (settle b okb (settle a oka (boot (main e) initial)))
            = (if oka \<and> okb then Some 3000 else None))"
proof -
  have order: "\<forall>k. redis_conn (boot (take k (main e)) initial) \<noteq> Closed \<longrightarrow>
          pg_conn (boot (take k (main e)) initial) \<noteq> Closed"
    by (simp add: boot_prefix)
  have gate: "\<forall>k. listening (boot (take k (main e)) initial) \<noteq> None \<longrightarrow>
          pg_conn (boot (take k (main e)) initial) = Pending
          \<and> redis_conn (boot (take k (main e)) initial) = Pending"
    by (simp add: boot_prefix)
  have fail: "\<forall>c. exit_code (settle c False (boot (main e) initial)) = Some 1
          \<and> listening (settle c False (boot (main e) initial)) = None"
  proof
    fix c show "exit_code (settle c False (boot (main e) initial)) = Some 1
          \<and> listening (settle c False (boot (main e) initial)) = None"
      by (cases c) (simp_all add: boot_main settle_def)
  qed
  have both: "\<forall>a b. a \<noteq> b \<longrightarrow>
          exit_code (settle b okb (settle a oka (boot (main e) initial)))
            = (if oka \<and> okb then None else Some 1)
          \<and> listening (settle b okb (settle a oka (boot (main e) initial)))
            = (if oka \<and> okb then Some 3000 else None)"
    using settle_twice by blast
  have top: "performed (boot (main e) initial) =
     [ Fire (PG_CONNECT (pgClient e)), Fire (REDIS_CONNECT (redisClient e)),
       APP_GET ''/'', APP_LISTEN 3000 ''Server running on port 3000'' ]
   \<and> listening (boot (main e) initial) = Some 3000
   \<and> pg_conn (boot (main e) initial) = Pending
   \<and> redis_conn (boot (main e) initial) = Pending
   \<and> exit_code (boot (main e) initial) = None"
    by (simp add: boot_main)
  from top order gate fail both show ?thesis
    by blast
qed

theorem startup_sequence_witness:
  "redis_conn (boot (take 2 (main Map.empty)) initial) \<noteq> Closed
   \<and> pg_conn (boot (take 2 (main Map.empty)) initial) \<noteq> Closed
   \<and> listening (boot (take 4 (main Map.empty)) initial) \<noteq> None
   \<and> redis_conn (boot (take 4 (main Map.empty)) initial) = Pending
   \<and> Pg \<noteq> Redis
   \<and> exit_code (settle Redis False (settle Pg True (boot (main Map.empty) initial))) = Some 1
   \<and> listening (settle Redis False (settle Pg True (boot (main Map.empty) initial))) = None"
proof -
  have a: "redis_conn (boot (take 2 (main Map.empty)) initial) \<noteq> Closed"
    by (simp add: main_def initial_def)
  have b: "listening (boot (take 4 (main Map.empty)) initial) \<noteq> None"
    by (simp add: main_def initial_def)
  have c: "Pg \<noteq> Redis"
    by simp
  note T = startup_sequence [where e = Map.empty and oka = True and okb = False]
  note order = T [THEN conjunct2, THEN conjunct1, rule_format, OF a]
  note gate = T [THEN conjunct2, THEN conjunct2, THEN conjunct1, rule_format, OF b]
  note both = T [THEN conjunct2, THEN conjunct2, THEN conjunct2, THEN conjunct2,
      THEN conjunct2, THEN conjunct2, THEN conjunct2, THEN conjunct2, rule_format, OF c]
  from a b c order gate both show ?thesis
    by simp
qed

section \<open>Decimal rendering\<close>

lemma digit_range: "d < 10 \<Longrightarrow> d \<in> {0, 1, 2, 3, 4, 5, 6, 7, 8, 9 :: nat}"
  by auto

lemma digit_value_digit_char: "d < 10 \<Longrightarrow> digit_value (digit_char d) = d"
  using digit_range [of d] by (auto simp: digit_value_def digit_char_def)

lemma is_digit_digit_char: "d < 10 \<Longrightarrow> is_digit (digit_char d)"
  using digit_range [of d] by (auto simp: is_digit_def digit_char_def)

lemma parse_digits_snoc: "parse_digits (s @ [c]) = 10 * parse_digits s + digit_value c"
  by (simp add: parse_digits_def)

lemma parse_digits_digits: "parse_digits (digits n) = n"
proof (induction n rule: digits.induct)
  case (1 n)
  show ?case
  proof (cases "n < 10")
    case True
    then show ?thesis
      by (simp add: digits.simps [of n] parse_digits_def digit_value_digit_char)
  next
    case False
    with 1 show ?thesis
      by (simp add: digits.simps [of n] parse_digits_snoc digit_value_digit_char)
  qed
qed

lemma digits_all_digit: "list_all is_digit (digits n)"
proof (induction n rule: digits.induct)
  case (1 n)
  show ?case
  proof (cases "n < 10")
    case True
    then show ?thesis
      by (simp add: digits.simps [of n] is_digit_digit_char)
  next
    case False
    with 1 show ?thesis
      by (simp add: digits.simps [of n] is_digit_digit_char)
  qed
qed

lemma digits_nonempty: "digits n \<noteq> []"
  by (subst digits.simps) simp

lemma digits_Cons:
  "digits n = c # cs \<Longrightarrow> c \<noteq> CHR ''-'' \<and> is_digit c \<and> list_all is_digit cs"
  using digits_all_digit [of n] by (auto simp: is_digit_def)

lemma is_integer_literal_toString: "is_integer_literal (Number_toString n)"
proof (cases "n < 0")
  case True
  then show ?thesis
    by (simp add: Number_toString_def is_integer_literal_def digits_nonempty digits_all_digit)
next
  case False
  obtain c cs where dc: "digits (nat n) = c # cs"
    using digits_nonempty [of "nat n"] by (cases "digits (nat n)") auto
  with False digits_Cons [OF dc] show ?thesis
    by (simp add: Number_toString_def is_integer_literal_def)
qed

lemma parse_integer_toString: "parse_integer (Number_toString n) = n"
proof (cases "n < 0")
  case True
  then show ?thesis
    by (simp add: Number_toString_def parse_integer_def parse_digits_digits)
next
  case False
  obtain c cs where dc: "digits (nat n) = c # cs"
    using digits_nonempty [of "nat n"] by (cases "digits (nat n)") auto
  have "parse_digits (c # cs) = nat n"
    using parse_digits_digits [of "nat n"] dc by simp
  with False digits_Cons [OF dc] dc show ?thesis
    by (simp add: Number_toString_def parse_integer_def)
qed

lemma shown_visits_greeting:
  "shown_visits (Replied \<lparr> status = 200, content_type = ''text/html; charset=utf-8'',
      body = greeting n \<rparr>) = Some n"
  by (simp add: shown_visits_def greeting_def rocket_def is_integer_literal_toString
      parse_integer_toString)

section \<open>Properties of one request\<close>

lemma find_root_get: "find (\<lambda>r. handles fw r root_get) app = Some (GET, ''/'', handler)"
  by (simp add: app_def root_get_def path_matches_def)

lemma route_root_get: "route_request fw root_get = Run (handler root_get)"
  by (simp add: route_request_def find_root_get)

lemma serve_root_get:
  "serve fw root_get w =
     (case redis_incr ''visits'' w of
        (Inl e, w') \<Rightarrow> (Escaped e, w')
      | (Inr v, w') \<Rightarrow>
          (Replied \<lparr> status = 200, content_type = ''text/html; charset=utf-8'',
                     body = greeting v \<rparr>, w'))"
proof -
  have m: "req_method root_get = GET"
    by (simp add: root_get_def)
  show ?thesis
    unfolding serve_def route_root_get
    by (simp add: handler_def res_send_def m split: prod.splits sum.splits)
qed

text \<open>
  C1, as stated, has the reply in plain text (the specification says \<^verbatim>\<open>200 text/plain\<close>).
  The handler passes a string to \<^verbatim>\<open>res.send\<close> and sets no type, and the framework then
  labels the reply as HTML.
\<close>

theorem get_root_content_type_counterexample:
  "fst (serve exact_paths root_get
      \<lparr> redis_up = True, keyspace = Map.empty(''visits'' \<mapsto> 41), redis_received = [],
        pg_received = [] \<rparr>)
     = Replied \<lparr> status = 200, content_type = ''text/html; charset=utf-8'',
                 body = ''Hello '' @ [CHR 0xF0, CHR 0x9F, CHR 0x9A, CHR 0x80] @ '' Visits: 42'' \<rparr>
   \<and> ''text/html; charset=utf-8'' \<noteq> ''text/plain''"
  by (simp add: serve_root_get redis_incr_def greeting_def rocket_def Number_toString_def
      digits.simps digit_char_def)

text \<open>
  C1, amended. A GET request to the root path that carries no conditional header and
  whose cache increment of key \<^verbatim>\<open>visits\<close> returns an integer \<open>n\<close> in the safe range,
  \<open>- (2^53 - 1) \<le> n \<le> 2^53 - 1\<close>, is answered
  with status 200, content type \<^verbatim>\<open>text/html; charset=utf-8\<close>, and a body that is exactly
  \<^verbatim>\<open>Hello\<close>, a space, the rocket (bytes F0 9F 9A 80), \<^verbatim>\<open> Visits: \<close> and the decimal
  rendering of \<open>n\<close>; that rendering is an integer literal and reads back as \<open>n\<close>, so the
  body has the shape of the greeting followed by an integer.
\<close>

theorem get_root_reply:
  assumes "redis_incr ''visits'' w = (Inr n, w')"
    and "- MAX_SAFE_INTEGER \<le> n" and "n \<le> MAX_SAFE_INTEGER"
  shows "serve fw root_get w =
           (Replied \<lparr> status = 200, content_type = ''text/html; charset=utf-8'',
                      body = ''Hello '' @ [CHR 0xF0, CHR 0x9F, CHR 0x9A, CHR 0x80]
                               @ '' Visits: '' @ Number_toString n \<rparr>, w')
         \<and> is_integer_literal (Number_toString n)
         \<and> parse_integer (Number_toString n) = n"
  using assms(1)
  by (simp add: serve_root_get greeting_def rocket_def is_integer_literal_toString
      parse_integer_toString)

theorem get_root_reply_witness:
  "redis_incr ''visits''
      \<lparr> redis_up = True, keyspace = Map.empty(''visits'' \<mapsto> 41), redis_received = [],
        pg_received = [] \<rparr>
    = (Inr 42, \<lparr> redis_up = True, keyspace = Map.empty(''visits'' \<mapsto> 42),
                 redis_received = [REDIS_INCR ''visits''], pg_received = [] \<rparr>)
   \<and> - MAX_SAFE_INTEGER \<le> 42 \<and> 42 \<le> MAX_SAFE_INTEGER
   \<and> fst (serve slash_tolerant root_get
      \<lparr> redis_up = True, keyspace = Map.empty(''visits'' \<mapsto> 41), redis_received = [],
        pg_received = [] \<rparr>)
    = Replied \<lparr> status = 200, content_type = ''text/html; charset=utf-8'',
                body = ''Hello '' @ [CHR 0xF0, CHR 0x9F, CHR 0x9A, CHR 0x80] @ '' Visits: 42'' \<rparr>"
proof -
  have h: "redis_incr ''visits''
      \<lparr> redis_up = True, keyspace = Map.empty(''visits'' \<mapsto> 41), redis_received = [],
        pg_received = [] \<rparr>
    = (Inr 42, \<lparr> redis_up = True, keyspace = Map.empty(''visits'' \<mapsto> 42),
                 redis_received = [REDIS_INCR ''visits''], pg_received = [] \<rparr>)"
    by (simp add: redis_incr_def)
  have lo: "- MAX_SAFE_INTEGER \<le> 42" and hi: "42 \<le> MAX_SAFE_INTEGER"
    by (simp_all add: MAX_SAFE_INTEGER_def)
  have d: "Number_toString 42 = ''42''"
    by (simp add: Number_toString_def digits.simps digit_char_def)
  from get_root_reply [OF h lo hi, of slash_tolerant] h lo hi d show ?thesis
    by simp
qed

text \<open>
  C6. If the cache increment call fails, nothing in the handler catches the failure: the
  rejection leaves the handler, and no response, so no 200 response with the greeting, is
  produced for that request.
\<close>

theorem get_root_rejected:
  assumes "redis_incr ''visits'' w = (Inl e, w')"
  shows "serve fw root_get w = (Escaped e, w')
         \<and> (\<forall>r. fst (serve fw root_get w) \<noteq> Replied r)"
  using assms by (simp add: serve_root_get)

theorem get_root_rejected_witness:
  "redis_incr ''visits''
      \<lparr> redis_up = False, keyspace = Map.empty, redis_received = [], pg_received = [] \<rparr>
     = (Inl CacheError,
        \<lparr> redis_up = False, keyspace = Map.empty, redis_received = [], pg_received = [] \<rparr>)
   \<and> serve exact_paths root_get
      \<lparr> redis_up = False, keyspace = Map.empty, redis_received = [], pg_received = [] \<rparr>
     = (Escaped CacheError,
        \<lparr> redis_up = False, keyspace = Map.empty, redis_received = [], pg_received = [] \<rparr>)"
proof -
  have h: "redis_incr ''visits''
      \<lparr> redis_up = False, keyspace = Map.empty, redis_received = [], pg_received = [] \<rparr>
     = (Inl CacheError,
        \<lparr> redis_up = False, keyspace = Map.empty, redis_received = [], pg_received = [] \<rparr>)"
    by (simp add: redis_incr_def)
  from get_root_rejected [OF h, of exact_paths] h show ?thesis
    by simp
qed

text \<open>
  C5. A handled GET request to the root path changes the outside world by exactly one
  increment by 1 of the cache key \<^verbatim>\<open>visits\<close>: the cache receives that one command and no
  other, every other key is as before, the counter is one more than its old value (0 for
  an absent key), and the relational store has received nothing.
\<close>

theorem get_root_frame:
  assumes "serve fw root_get w = (Replied r, w')"
  shows "redis_received w' = redis_received w @ [REDIS_INCR ''visits'']
         \<and> keyspace w' ''visits'' = Some (counter w + 1)
         \<and> (\<forall>k. k \<noteq> ''visits'' \<longrightarrow> keyspace w' k = keyspace w k)
         \<and> pg_received w' = pg_received w
         \<and> redis_up w' = redis_up w"
  using assms
  by (auto simp: serve_root_get redis_incr_def counter_def Let_def split: if_splits)

theorem get_root_frame_witness:
  "serve exact_paths root_get
      \<lparr> redis_up = True, keyspace = Map.empty(''visits'' \<mapsto> 7, ''hits'' \<mapsto> 3),
        redis_received = [], pg_received = [''SELECT 1''] \<rparr>
     = (Replied \<lparr> status = 200, content_type = ''text/html; charset=utf-8'',
                  body = greeting 8 \<rparr>,
        \<lparr> redis_up = True, keyspace = Map.empty(''visits'' \<mapsto> 8, ''hits'' \<mapsto> 3),
          redis_received = [REDIS_INCR ''visits''], pg_received = [''SELECT 1''] \<rparr>)
   \<and> ''hits'' \<noteq> ''visits''
   \<and> keyspace \<lparr> redis_up = True, keyspace = Map.empty(''visits'' \<mapsto> 8, ''hits'' \<mapsto> 3),
          redis_received = [REDIS_INCR ''visits''], pg_received = [''SELECT 1''] \<rparr> ''hits''
     = Some 3
   \<and> pg_received \<lparr> redis_up = True, keyspace = Map.empty(''visits'' \<mapsto> 8, ''hits'' \<mapsto> 3),
          redis_received = [REDIS_INCR ''visits''], pg_received = [''SELECT 1''] \<rparr>
     = [''SELECT 1'']"
proof -
  have h: "serve exact_paths root_get
      \<lparr> redis_up = True, keyspace = Map.empty(''visits'' \<mapsto> 7, ''hits'' \<mapsto> 3),
        redis_received = [], pg_received = [''SELECT 1''] \<rparr>
     = (Replied \<lparr> status = 200, content_type = ''text/html; charset=utf-8'',
                  body = greeting 8 \<rparr>,
        \<lparr> redis_up = True, keyspace = Map.empty(''visits'' \<mapsto> 8, ''hits'' \<mapsto> 3),
          redis_received = [REDIS_INCR ''visits''], pg_received = [''SELECT 1''] \<rparr>)"
    by (simp add: serve_root_get redis_incr_def fun_upd_twist)
  from get_root_frame [OF h] h show ?thesis
    by simp
qed





section \<open>Properties of requests served one after the other\<close>

lemma serve_root_get_up:
  assumes "redis_up w"
  shows "\<exists>w'. serve fw root_get w
                 = (Replied \<lparr> status = 200, content_type = ''text/html; charset=utf-8'',
                     body = greeting (counter w + 1) \<rparr>, w')
           \<and> redis_up w' \<and> counter w' = counter w + 1"
  using assms by (simp add: serve_root_get redis_incr_def counter_def Let_def)

lemma serve_all_from:
  "redis_up w \<Longrightarrow>
   fst (serve_all fw (replicate N root_get) w) =
     map (\<lambda>n. Replied \<lparr> status = 200, content_type = ''text/html; charset=utf-8'',
         body = greeting (counter w + int n) \<rparr>) [1..<Suc N]"
proof (induction N arbitrary: w)
  case 0
  then show ?case by simp
next
  case (Suc N)
  from serve_root_get_up [OF Suc.prems] obtain w' where
    s: "serve fw root_get w = (Replied \<lparr> status = 200, content_type = ''text/html; charset=utf-8'',
        body = greeting (counter w + 1) \<rparr>, w')"
    and up: "redis_up w'" and c: "counter w' = counter w + 1"
    by blast
  have shift: "[1..<Suc (Suc N)] = 1 # map Suc [1..<Suc N]"
    by (simp add: upt_conv_Cons map_Suc_upt del: upt_Suc)
  have "fst (serve_all fw (replicate (Suc N) root_get) w) =
          Replied \<lparr> status = 200, content_type = ''text/html; charset=utf-8'',
              body = greeting (counter w + 1) \<rparr>
            # fst (serve_all fw (replicate N root_get) w')"
    using s by (simp split: prod.splits)
  also have "fst (serve_all fw (replicate N root_get) w') =
          map (\<lambda>n. Replied \<lparr> status = 200, content_type = ''text/html; charset=utf-8'',
              body = greeting (counter w' + int n) \<rparr>)
            [1..<Suc N]"
    by (rule Suc.IH [OF up])
  finally show ?case
    unfolding shift by (simp add: c o_def add.assoc del: upt_Suc)
qed

text \<open>
  C2. From a fresh cache (key \<^verbatim>\<open>visits\<close> absent) that stays reachable, \<open>N\<close> GET requests to
  the root path served one after the other are answered with the counter values
  1, 2, ..., \<open>N\<close> in that order; in particular the first request is answered with 1.
\<close>

theorem sequential_requests:
  assumes "redis_up w" and "keyspace w ''visits'' = None"
  shows "fst (serve_all fw (replicate N root_get) w) =
           map (\<lambda>n. Replied \<lparr> status = 200, content_type = ''text/html; charset=utf-8'',
               body = greeting (int n) \<rparr>) [1..<Suc N]
         \<and> map shown_visits (fst (serve_all fw (replicate N root_get) w)) =
           map (\<lambda>n. Some (int n)) [1..<Suc N]
         \<and> (0 < N \<longrightarrow> shown_visits (hd (fst (serve_all fw (replicate N root_get) w))) = Some 1)"
proof -
  have c: "counter w = 0"
    using assms(2) by (simp add: counter_def)
  have a: "fst (serve_all fw (replicate N root_get) w) =
           map (\<lambda>n. Replied \<lparr> status = 200, content_type = ''text/html; charset=utf-8'',
               body = greeting (int n) \<rparr>) [1..<Suc N]"
    using serve_all_from [OF assms(1), of fw N] by (simp add: c)
  have b: "map shown_visits (fst (serve_all fw (replicate N root_get) w)) =
           map (\<lambda>n. Some (int n)) [1..<Suc N]"
    unfolding a by (simp add: o_def shown_visits_greeting del: upt_Suc)
  have "0 < N \<Longrightarrow> shown_visits (hd (fst (serve_all fw (replicate N root_get) w))) = Some 1"
    unfolding a by (simp add: upt_conv_Cons shown_visits_greeting del: upt_Suc)
  with a b show ?thesis by blast
qed

theorem sequential_requests_witness:
  "map shown_visits (fst (serve_all exact_paths (replicate 5 root_get)
      \<lparr> redis_up = True, keyspace = Map.empty, redis_received = [], pg_received = [] \<rparr>)) =
     [Some 1, Some 2, Some 3, Some 4, Some 5]
   \<and> shown_visits (hd (fst (serve_all exact_paths (replicate 5 root_get)
      \<lparr> redis_up = True, keyspace = Map.empty, redis_received = [], pg_received = [] \<rparr>))) =
     Some 1"
proof -
  have u: "redis_up
      \<lparr> redis_up = True, keyspace = Map.empty, redis_received = [], pg_received = [] \<rparr>"
    by simp
  have k: "keyspace
      \<lparr> redis_up = True, keyspace = Map.empty, redis_received = [], pg_received = [] \<rparr>
      ''visits'' = None"
    by simp
  have l: "[1..<Suc 5] = [1, 2, 3, 4, 5]"
    by (simp add: upt_conv_Cons)
  from sequential_requests [OF u k, of exact_paths 5, THEN conjunct2] show ?thesis
    unfolding l by simp
qed

section \<open>Properties of requests in flight at the same time\<close>

lemma steps_snoc:
  "steps fw (es @ [e]) s = (case steps fw es s of None \<Rightarrow> None | Some s' \<Rightarrow> step fw e s')"
  by (induction es arbitrary: s) (auto split: option.splits)

lemma rank_snoc_other: "\<not> is_exec e \<Longrightarrow> rank i (es @ [e]) = rank i es"
  by (induction es) auto

lemma rank_snoc_done: "Exec i \<in> set es \<Longrightarrow> rank i (es @ [e]) = rank i es"
  by (induction es) auto

lemma rank_snoc_new: "Exec i \<notin> set es \<Longrightarrow> rank i (es @ [Exec i]) = Suc (execs es)"
  by (induction es) (auto simp: execs_def)

lemma execs_snoc: "execs (es @ [e]) = (if is_exec e then Suc (execs es) else execs es)"
  by (simp add: execs_def)

lemma arrivals_snoc: "arrivals (es @ [e]) = (if is_accept e then Suc (arrivals es) else arrivals es)"
  by (simp add: arrivals_def)

lemma in_set_task:
  "(j, u) \<in> set (set_task i t xs) \<longleftrightarrow>
     (j = i \<and> u = t \<and> i \<in> fst ` set xs) \<or> (j \<noteq> i \<and> (j, u) \<in> set xs)"
  by (induction xs) (auto simp: set_task_def split: if_splits)

lemma in_drop_task: "(j, u) \<in> set (drop_task i xs) \<longleftrightarrow> j \<noteq> i \<and> (j, u) \<in> set xs"
  by (auto simp: drop_task_def)

lemma keys_set_task: "map fst (set_task i t xs) = map fst xs"
  by (induction xs) (auto simp: set_task_def)

lemma length_set_task: "length (set_task i t xs) = length xs"
  by (simp add: set_task_def)


lemma distinct_drop_task: "distinct (map fst xs) \<Longrightarrow> distinct (map fst (drop_task i xs))"
  by (simp add: drop_task_def distinct_map_filter)

lemma set_task_absent: "i \<notin> fst ` set xs \<Longrightarrow> set_task i t xs = xs"
  by (induction xs) (auto simp: set_task_def)

lemma drop_task_absent: "i \<notin> fst ` set xs \<Longrightarrow> drop_task i xs = xs"
  by (induction xs) (auto simp: drop_task_def)

lemma held_Cons: "held ((j, u) # xs) = task_values u @ held xs"
  by (simp add: held_def)

lemma held_append: "held (xs @ ys) = held xs @ held ys"
  by (simp add: held_def)

lemma held_set_task:
  "distinct (map fst xs) \<Longrightarrow> (i, Suspended c k) \<in> set xs \<Longrightarrow>
   mset (held (set_task i (Settled (Inr v) k') xs)) = add_mset v (mset (held xs))"
proof (induction xs)
  case Nil
  then show ?case by simp
next
  case (Cons x xs)
  obtain j u where x: "x = (j, u)" by (cases x)
  show ?case
  proof (cases "j = i")
    case True
    with Cons.prems x have u: "u = Suspended c k" and "i \<notin> fst ` set xs"
      by (auto simp: image_iff)
    then have "set_task i (Settled (Inr v) k') xs = xs"
      by (simp add: set_task_absent)
    then have "set_task i (Settled (Inr v) k') (x # xs) = (i, Settled (Inr v) k') # xs"
      using x True by (simp add: set_task_def)
    then show ?thesis
      using x u by (simp add: held_Cons)
  next
    case False
    with Cons.prems x have "(i, Suspended c k) \<in> set xs" and "distinct (map fst xs)"
      by auto
    then have "mset (held (set_task i (Settled (Inr v) k') xs)) = add_mset v (mset (held xs))"
      by (rule Cons.IH [rotated])
    moreover have "set_task i (Settled (Inr v) k') (x # xs) = (j, u) # set_task i (Settled (Inr v) k') xs"
      using x False by (simp add: set_task_def)
    ultimately show ?thesis
      using x by (simp add: held_Cons)
  qed
qed

lemma held_drop_task:
  "distinct (map fst xs) \<Longrightarrow> (i, Settled (Inr v) k) \<in> set xs \<Longrightarrow>
   add_mset v (mset (held (drop_task i xs))) = mset (held xs)
   \<and> Suc (length (drop_task i xs)) = length xs"
proof (induction xs)
  case Nil
  then show ?case by simp
next
  case (Cons x xs)
  obtain j u where x: "x = (j, u)" by (cases x)
  show ?case
  proof (cases "j = i")
    case True
    with Cons.prems x have u: "u = Settled (Inr v) k" and "i \<notin> fst ` set xs"
      by (auto simp: image_iff)
    then have "drop_task i xs = xs"
      by (simp add: drop_task_absent)
    then have "drop_task i (x # xs) = xs"
      using x True by (simp add: drop_task_def)
    then show ?thesis
      using x u by (simp add: held_Cons)
  next
    case False
    with Cons.prems x have "(i, Settled (Inr v) k) \<in> set xs" and "distinct (map fst xs)"
      by auto
    then have "add_mset v (mset (held (drop_task i xs))) = mset (held xs)
        \<and> Suc (length (drop_task i xs)) = length xs"
      by (rule Cons.IH [rotated])
    moreover have "drop_task i (x # xs) = (j, u) # drop_task i xs"
      using x False by (simp add: drop_task_def)
    ultimately show ?thesis
      using x by (simp add: held_Cons)
  qed
qed

lemma step_accept_root:
  "step fw (Accept i root_get) s =
     (if i \<in> fst ` set (inflight s) \<or> i \<in> fst ` set (replies s) then None
      else Some (s\<lparr> inflight := inflight s @ [(i, Suspended (REDIS_INCR ''visits'') root_resume)] \<rparr>))"
  by (simp add: route_root_get handler_def root_resume_def)

lemma exec_incr_up:
  "redis_up w \<Longrightarrow>
   \<exists>w'. exec (REDIS_INCR ''visits'') w = (Inr (counter w + 1), w')
        \<and> redis_up w' \<and> counter w' = counter w + 1"
  by (simp add: redis_incr_def counter_def Let_def)

lemma upt_execs_snoc:
  "map (\<lambda>n. Some (int n)) [1..<Suc (Suc m)] = map (\<lambda>n. Some (int n)) [1..<Suc m] @ [Some (int m + 1)]"
  by simp

lemma sched_inv_accept:
  assumes I: "sched_inv es s" and st: "step fw (Accept i root_get) s = Some s'"
  shows "sched_inv (es @ [Accept i root_get]) s'"
proof -
  let ?e = "Accept i root_get"
  from st have f1: "i \<notin> fst ` set (inflight s)" and f2: "i \<notin> fst ` set (replies s)"
    and s': "s' = s\<lparr> inflight := inflight s @ [(i, Suspended (REDIS_INCR ''visits'') root_resume)] \<rparr>"
    unfolding step_accept_root by (auto split: if_splits)
  have ne: "\<not> is_exec ?e" by simp
  have r: "\<And>j. rank j (es @ [?e]) = rank j es"
    by (rule rank_snoc_other [OF ne])
  have x: "execs (es @ [?e]) = execs es" by (simp add: execs_snoc)
  have a: "arrivals (es @ [?e]) = Suc (arrivals es)" by (simp add: arrivals_snoc)
  from I f1 f2 have ni: "Exec i \<notin> set es"
    unfolding sched_inv_def by blast
  from I have c1: "redis_up (backing s')" and c2: "counter (backing s') = int (execs (es @ [?e]))"
    by (simp_all add: sched_inv_def s' x)
  from I f1 have c3: "distinct (map fst (inflight s'))"
    by (simp add: sched_inv_def s' image_iff)
  from I ni have c4: "\<forall>j t. (j, t) \<in> set (inflight s') \<longrightarrow>
        (t = Suspended (REDIS_INCR ''visits'') root_resume \<and> Exec j \<notin> set (es @ [?e])) \<or>
        (t = Settled (Inr (int (rank j (es @ [?e])))) root_resume \<and> Exec j \<in> set (es @ [?e]))"
    unfolding sched_inv_def s' r by auto
  from I have c5: "\<forall>j out. (j, out) \<in> set (replies s') \<longrightarrow>
        out = Replied \<lparr> status = 200, content_type = ''text/html; charset=utf-8'',
            body = greeting (int (rank j (es @ [?e]))) \<rparr>
        \<and> Exec j \<in> set (es @ [?e])"
    unfolding sched_inv_def s' r by auto
  from I have c6: "\<forall>j. Exec j \<in> set (es @ [?e]) \<longrightarrow>
        j \<in> fst ` set (inflight s') \<or> j \<in> fst ` set (replies s')"
    unfolding sched_inv_def s' by auto
  from I have c7: "mset (map (\<lambda>(i, out). shown_visits out) (replies s'))
        + mset (map Some (held (inflight s')))
       = mset (map (\<lambda>n. Some (int n)) [1..<Suc (execs (es @ [?e]))])"
    unfolding sched_inv_def s' x by (simp add: held_append held_Cons held_def)
  from I have c8: "length (replies s') + length (inflight s') = arrivals (es @ [?e])"
    unfolding sched_inv_def s' a by simp
  from c1 c2 c3 c4 c5 c6 c7 c8 show ?thesis
    unfolding sched_inv_def by blast
qed

lemma sched_inv_exec:
  assumes I: "sched_inv es s" and st: "step fw (Exec i) s = Some s'"
  shows "sched_inv (es @ [Exec i]) s'"
proof -
  let ?e = "Exec i"
  from st obtain c k where m: "map_of (inflight s) i = Some (Suspended c k)"
    by (auto split: option.splits task.splits)
  then have mem: "(i, Suspended c k) \<in> set (inflight s)"
    by (rule map_of_SomeD)
  with I have ck: "c = REDIS_INCR ''visits''" "k = root_resume" and ni: "Exec i \<notin> set es"
    unfolding sched_inv_def by blast+
  from I have up: "redis_up (backing s)" and cnt: "counter (backing s) = int (execs es)"
    and dist: "distinct (map fst (inflight s))"
    by (simp_all add: sched_inv_def)
  from exec_incr_up [OF up] obtain w' where
    ex: "exec (REDIS_INCR ''visits'') (backing s) = (Inr (counter (backing s) + 1), w')"
    and up': "redis_up w'" and cnt': "counter w' = counter (backing s) + 1"
    by blast
  let ?t = "Settled (Inr (int (execs es) + 1)) root_resume"
  from st m ck ex cnt have s': "s' = s\<lparr> backing := w', inflight := set_task i ?t (inflight s) \<rparr>"
    by simp
  have x: "execs (es @ [?e]) = Suc (execs es)" by (simp add: execs_snoc)
  have a: "arrivals (es @ [?e]) = arrivals es" by (simp add: arrivals_snoc)
  have ri: "rank i (es @ [?e]) = Suc (execs es)"
    by (rule rank_snoc_new [OF ni])
  have ro: "\<And>j. Exec j \<in> set es \<Longrightarrow> rank j (es @ [?e]) = rank j es"
    by (rule rank_snoc_done)
  have c1: "redis_up (backing s')" by (simp add: s' up')
  have c2: "counter (backing s') = int (execs (es @ [?e]))"
    by (simp add: s' cnt' cnt x)
  have c3: "distinct (map fst (inflight s'))"
    by (simp add: s' keys_set_task dist)
  have c4: "\<forall>j t. (j, t) \<in> set (inflight s') \<longrightarrow>
        (t = Suspended (REDIS_INCR ''visits'') root_resume \<and> Exec j \<notin> set (es @ [?e])) \<or>
        (t = Settled (Inr (int (rank j (es @ [?e])))) root_resume \<and> Exec j \<in> set (es @ [?e]))"
  proof (intro allI impI)
    fix j t assume "(j, t) \<in> set (inflight s')"
    then have d: "(j = i \<and> t = ?t) \<or> (j \<noteq> i \<and> (j, t) \<in> set (inflight s))"
      by (auto simp: s' in_set_task)
    show "(t = Suspended (REDIS_INCR ''visits'') root_resume \<and> Exec j \<notin> set (es @ [?e])) \<or>
        (t = Settled (Inr (int (rank j (es @ [?e])))) root_resume \<and> Exec j \<in> set (es @ [?e]))"
    proof (cases "j = i")
      case True
      with d show ?thesis by (simp add: ri)
    next
      case False
      with d have "(j, t) \<in> set (inflight s)" by simp
      with I have "(t = Suspended (REDIS_INCR ''visits'') root_resume \<and> Exec j \<notin> set es) \<or>
        (t = Settled (Inr (int (rank j es))) root_resume \<and> Exec j \<in> set es)"
        unfolding sched_inv_def by blast
      with False show ?thesis
        by (auto simp: ro)
    qed
  qed
  have c5: "\<forall>j out. (j, out) \<in> set (replies s') \<longrightarrow>
        out = Replied \<lparr> status = 200, content_type = ''text/html; charset=utf-8'',
            body = greeting (int (rank j (es @ [?e]))) \<rparr>
        \<and> Exec j \<in> set (es @ [?e])"
  proof (intro allI impI)
    fix j out assume "(j, out) \<in> set (replies s')"
    then have "(j, out) \<in> set (replies s)" by (simp add: s')
    with I have "out = Replied \<lparr> status = 200, content_type = ''text/html; charset=utf-8'',
        body = greeting (int (rank j es)) \<rparr> \<and> Exec j \<in> set es"
      unfolding sched_inv_def by blast
    then show "out = Replied \<lparr> status = 200, content_type = ''text/html; charset=utf-8'',
        body = greeting (int (rank j (es @ [?e]))) \<rparr>
        \<and> Exec j \<in> set (es @ [?e])"
      by (simp add: ro)
  qed
  have keys: "fst ` set (inflight s') = fst ` set (inflight s)"
    using keys_set_task [of i ?t "inflight s"] by (simp add: s' flip: set_map)
  from mem have ik: "i \<in> fst ` set (inflight s)"
    by (force simp: image_iff)
  from I have old6: "\<forall>j. Exec j \<in> set es \<longrightarrow>
        j \<in> fst ` set (inflight s) \<or> j \<in> fst ` set (replies s)"
    unfolding sched_inv_def by blast
  have c6: "\<forall>j. Exec j \<in> set (es @ [?e]) \<longrightarrow>
        j \<in> fst ` set (inflight s') \<or> j \<in> fst ` set (replies s')"
    unfolding keys using old6 ik by (auto simp: s')
  from I have old7: "mset (map (\<lambda>(i, out). shown_visits out) (replies s))
        + mset (map Some (held (inflight s)))
       = mset (map (\<lambda>n. Some (int n)) [1..<Suc (execs es)])"
    unfolding sched_inv_def by blast
  have h: "mset (held (inflight s')) = add_mset (int (execs es) + 1) (mset (held (inflight s)))"
    using held_set_task [OF dist mem] by (simp add: s')
  have "mset (map Some (held (inflight s')))
      = add_mset (Some (int (execs es) + 1)) (mset (map Some (held (inflight s))))"
    using arg_cong [OF h, of "image_mset Some"] by simp
  then have c7: "mset (map (\<lambda>(i, out). shown_visits out) (replies s'))
        + mset (map Some (held (inflight s')))
       = mset (map (\<lambda>n. Some (int n)) [1..<Suc (execs (es @ [?e]))])"
    unfolding x upt_execs_snoc using old7 by (simp add: s')
  from I have c8: "length (replies s') + length (inflight s') = arrivals (es @ [?e])"
    unfolding sched_inv_def a by (simp add: s' length_set_task)
  from c1 c2 c3 c4 c5 c6 c7 c8 show ?thesis
    unfolding sched_inv_def by blast
qed

lemma sched_inv_resume:
  assumes I: "sched_inv es s" and st: "step fw (Resume i) s = Some s'"
  shows "sched_inv (es @ [Resume i]) s'"
proof -
  let ?e = "Resume i"
  from st obtain r k where m: "map_of (inflight s) i = Some (Settled r k)"
    by (auto split: option.splits task.splits)
  then have mem0: "(i, Settled r k) \<in> set (inflight s)"
    by (rule map_of_SomeD)
  with I have rk: "r = Inr (int (rank i es))" "k = root_resume" and di: "Exec i \<in> set es"
    unfolding sched_inv_def by blast+
  from mem0 rk have mem: "(i, Settled (Inr (int (rank i es))) root_resume) \<in> set (inflight s)"
    by simp
  let ?out = "Replied \<lparr> status = 200, content_type = ''text/html; charset=utf-8'',
      body = greeting (int (rank i es)) \<rparr>"
  have rs: "res_send root_get (greeting (int (rank i es))) = \<lparr> status = 200, content_type = ''text/html; charset=utf-8'',
      body = greeting (int (rank i es)) \<rparr>"
    by (simp add: res_send_def root_get_def)
  from st m rk have s': "s' = s\<lparr> inflight := drop_task i (inflight s),
                                 replies := replies s @ [(i, ?out)] \<rparr>"
    by (simp add: root_resume_def rs)
  from I have dist: "distinct (map fst (inflight s))"
    by (simp add: sched_inv_def)
  have ne: "\<not> is_exec ?e" by simp
  have r: "\<And>j. rank j (es @ [?e]) = rank j es"
    by (rule rank_snoc_other [OF ne])
  have x: "execs (es @ [?e]) = execs es" by (simp add: execs_snoc)
  have a: "arrivals (es @ [?e]) = arrivals es" by (simp add: arrivals_snoc)
  from I have c1: "redis_up (backing s')" and c2: "counter (backing s') = int (execs (es @ [?e]))"
    by (simp_all add: sched_inv_def s' x)
  have c3: "distinct (map fst (inflight s'))"
    by (simp add: s' distinct_drop_task dist)
  from I have c4: "\<forall>j t. (j, t) \<in> set (inflight s') \<longrightarrow>
        (t = Suspended (REDIS_INCR ''visits'') root_resume \<and> Exec j \<notin> set (es @ [?e])) \<or>
        (t = Settled (Inr (int (rank j (es @ [?e])))) root_resume \<and> Exec j \<in> set (es @ [?e]))"
    unfolding sched_inv_def s' r by (auto simp: in_drop_task)
  from I di have c5: "\<forall>j out. (j, out) \<in> set (replies s') \<longrightarrow>
        out = Replied \<lparr> status = 200, content_type = ''text/html; charset=utf-8'',
            body = greeting (int (rank j (es @ [?e]))) \<rparr>
        \<and> Exec j \<in> set (es @ [?e])"
    unfolding sched_inv_def s' r by auto
  from I have old6: "\<forall>j. Exec j \<in> set es \<longrightarrow>
        j \<in> fst ` set (inflight s) \<or> j \<in> fst ` set (replies s)"
    unfolding sched_inv_def by blast
  have c6: "\<forall>j. Exec j \<in> set (es @ [?e]) \<longrightarrow>
        j \<in> fst ` set (inflight s') \<or> j \<in> fst ` set (replies s')"
  proof (intro allI impI)
    fix j assume "Exec j \<in> set (es @ [?e])"
    then have "Exec j \<in> set es" by simp
    with old6 have d: "j \<in> fst ` set (inflight s) \<or> j \<in> fst ` set (replies s)" by blast
    show "j \<in> fst ` set (inflight s') \<or> j \<in> fst ` set (replies s')"
    proof (cases "j = i")
      case True
      then show ?thesis by (simp add: s')
    next
      case False
      with d show ?thesis
        by (force simp: s' image_iff in_drop_task)
    qed
  qed
  from I have old7: "mset (map (\<lambda>(i, out). shown_visits out) (replies s))
        + mset (map Some (held (inflight s)))
       = mset (map (\<lambda>n. Some (int n)) [1..<Suc (execs es)])"
    unfolding sched_inv_def by blast
  from held_drop_task [OF dist mem] have
    h: "add_mset (int (rank i es)) (mset (held (drop_task i (inflight s)))) = mset (held (inflight s))"
    and l: "Suc (length (drop_task i (inflight s))) = length (inflight s)"
    by blast+
  have "mset (map Some (held (inflight s)))
      = add_mset (Some (int (rank i es))) (mset (map Some (held (drop_task i (inflight s)))))"
    using arg_cong [OF h, of "image_mset Some"] by simp
  then have same: "mset (map (\<lambda>(i, out). shown_visits out) (replies s'))
        + mset (map Some (held (inflight s')))
       = mset (map (\<lambda>(i, out). shown_visits out) (replies s))
        + mset (map Some (held (inflight s)))"
    by (simp add: s' shown_visits_greeting)
  have c7: "mset (map (\<lambda>(i, out). shown_visits out) (replies s'))
        + mset (map Some (held (inflight s')))
       = mset (map (\<lambda>n. Some (int n)) [1..<Suc (execs (es @ [?e]))])"
    unfolding x same by (rule old7)
  from I l have c8: "length (replies s') + length (inflight s') = arrivals (es @ [?e])"
    unfolding sched_inv_def a by (simp add: s')
  from c1 c2 c3 c4 c5 c6 c7 c8 show ?thesis
    unfolding sched_inv_def by blast
qed

lemma sched_inv_fresh:
  assumes "redis_up w" and "keyspace w ''visits'' = None"
  shows "sched_inv [] (fresh w)"
  using assms by (simp add: sched_inv_def fresh_def counter_def execs_def arrivals_def held_def)

lemma sched_inv_step:
  assumes "sched_inv es s" and "accepts_only root_get e" and "step fw e s = Some s'"
  shows "sched_inv (es @ [e]) s'"
proof (cases e)
  case (Accept i req)
  with assms(2) have "req = root_get" by simp
  with Accept assms(1,3) show ?thesis
    using sched_inv_accept by blast
next
  case (Exec i)
  with assms(1,3) show ?thesis
    using sched_inv_exec by blast
next
  case (Resume i)
  with assms(1,3) show ?thesis
    using sched_inv_resume by blast
qed

lemma sched_inv_steps:
  assumes "redis_up w" and "keyspace w ''visits'' = None"
  shows "list_all (accepts_only root_get) es \<Longrightarrow> steps fw es (fresh w) = Some s \<Longrightarrow> sched_inv es s"
proof (induction es arbitrary: s rule: rev_induct)
  case Nil
  then show ?case
    using sched_inv_fresh [OF assms] by simp
next
  case (snoc e es)
  from snoc.prems(2) obtain s0 where s0: "steps fw es (fresh w) = Some s0" and st: "step fw e s0 = Some s"
    by (auto simp: steps_snoc split: option.splits)
  from snoc.prems(1) have "list_all (accepts_only root_get) es" and ao: "accepts_only root_get e"
    by simp_all
  then have "sched_inv es s0"
    using snoc.IH s0 by blast
  then show ?case
    using ao st by (rule sched_inv_step)
qed

text \<open>
  C3. With the cache increment an atomic step, take any execution, from a fresh cache
  that stays reachable, in which GET requests to the root path arrive, have their
  increments executed and are answered in any interleaving, and in which every request
  that arrived has been answered. Then the value returned to each request is the number
  of increments executed up to and including its own, and the multiset of the values
  returned to the \<open>N\<close> requests is exactly 1, ..., \<open>N\<close>, each once.
\<close>

theorem interleaved_requests:
  assumes "redis_up w" and "keyspace w ''visits'' = None"
    and "list_all (accepts_only root_get) sched"
    and "steps fw sched (fresh w) = Some s"
    and "inflight s = []"
  shows "(\<forall>(i, out) \<in> set (replies s). shown_visits out = Some (int (rank i sched)))
       \<and> mset (map (\<lambda>(i, out). shown_visits out) (replies s))
           = mset (map (\<lambda>n. Some (int n)) [1..<Suc (arrivals sched)])
       \<and> length (replies s) = arrivals sched"
proof -
  have I: "sched_inv sched s"
    using sched_inv_steps [OF assms(1,2,3,4)] .
  from I assms(5) have len: "length (replies s) = arrivals sched"
    by (simp add: sched_inv_def)
  from I assms(5) have ms: "mset (map (\<lambda>(i, out). shown_visits out) (replies s))
      = mset (map (\<lambda>n. Some (int n)) [1..<Suc (execs sched)])"
    by (simp add: sched_inv_def held_def)
  from arg_cong [OF ms, of size] have "length (replies s) = execs sched"
    by simp
  with len have ea: "execs sched = arrivals sched" by simp
  from I have R: "\<forall>i out. (i, out) \<in> set (replies s) \<longrightarrow>
        out = Replied \<lparr> status = 200, content_type = ''text/html; charset=utf-8'',
            body = greeting (int (rank i sched)) \<rparr>"
    unfolding sched_inv_def by blast
  have "shown_visits out = Some (int (rank i sched))" if "(i, out) \<in> set (replies s)" for i out
  proof -
    from R that have "out = Replied \<lparr> status = 200, content_type = ''text/html; charset=utf-8'',
        body = greeting (int (rank i sched)) \<rparr>"
      by blast
    then show ?thesis
      by (simp add: shown_visits_greeting)
  qed
  then have "\<forall>(i, out) \<in> set (replies s). shown_visits out = Some (int (rank i sched))"
    by blast
  with ms len show ?thesis
    unfolding ea by blast
qed

theorem interleaved_requests_witness:
  "steps slash_tolerant [Accept 0 root_get, Accept 1 root_get, Exec 1, Accept 2 root_get, Exec 0, Resume 0,
          Exec 2, Resume 2, Resume 1]
     (fresh \<lparr> redis_up = True, keyspace = Map.empty, redis_received = [], pg_received = [] \<rparr>)
   = Some \<lparr> backing = \<lparr> redis_up = True, keyspace = Map.empty(''visits'' \<mapsto> 3),
              redis_received = [REDIS_INCR ''visits'', REDIS_INCR ''visits'', REDIS_INCR ''visits''],
              pg_received = [] \<rparr>,
            inflight = [],
            replies = [(0, Replied \<lparr> status = 200, content_type = ''text/html; charset=utf-8'',
                body = greeting 2 \<rparr>),
                       (2, Replied \<lparr> status = 200, content_type = ''text/html; charset=utf-8'',
                           body = greeting 3 \<rparr>),
                       (1, Replied \<lparr> status = 200, content_type = ''text/html; charset=utf-8'',
                           body = greeting 1 \<rparr>)] \<rparr>
   \<and> mset [shown_visits (Replied \<lparr> status = 200, content_type = ''text/html; charset=utf-8'',
       body = greeting 2 \<rparr>),
            shown_visits (Replied \<lparr> status = 200, content_type = ''text/html; charset=utf-8'',
                body = greeting 3 \<rparr>),
            shown_visits (Replied \<lparr> status = 200, content_type = ''text/html; charset=utf-8'',
                body = greeting 1 \<rparr>)]
     = mset [Some 1, Some 2, Some 3]
   \<and> shown_visits (Replied \<lparr> status = 200, content_type = ''text/html; charset=utf-8'',
       body = greeting 1 \<rparr>) = Some 1"
proof -
  let ?w = "\<lparr> redis_up = True, keyspace = Map.empty, redis_received = [], pg_received = [] \<rparr>"
  let ?sched = "[Accept 0 root_get, Accept 1 root_get, Exec 1, Accept 2 root_get, Exec 0,
                 Resume 0, Exec 2, Resume 2, Resume 1]"
  let ?s = "\<lparr> backing = \<lparr> redis_up = True, keyspace = Map.empty(''visits'' \<mapsto> 3),
              redis_received = [REDIS_INCR ''visits'', REDIS_INCR ''visits'', REDIS_INCR ''visits''],
              pg_received = [] \<rparr>,
            inflight = [],
            replies = [(0, Replied \<lparr> status = 200, content_type = ''text/html; charset=utf-8'',
                body = greeting 2 \<rparr>),
                       (2, Replied \<lparr> status = 200, content_type = ''text/html; charset=utf-8'',
                           body = greeting 3 \<rparr>),
                       (1, Replied \<lparr> status = 200, content_type = ''text/html; charset=utf-8'',
                           body = greeting 1 \<rparr>)] \<rparr>"
  have u: "redis_up ?w" by simp
  have k: "keyspace ?w ''visits'' = None" by simp
  have a: "list_all (accepts_only root_get) ?sched" by simp
  have m: "req_method root_get = GET" by (simp add: root_get_def)
  have st: "steps slash_tolerant ?sched (fresh ?w) = Some ?s"
    by (simp add: fresh_def route_root_get handler_def set_task_def drop_task_def
        redis_incr_def res_send_def m)
  have e: "inflight ?s = []" by simp
  have n: "[1..<Suc (arrivals ?sched)] = [1, 2, 3]"
    by (simp add: arrivals_def upt_conv_Cons)
  have r: "rank 1 ?sched = 1" by simp
  from interleaved_requests [OF u k a st e] st show ?thesis
    unfolding n by (simp add: r)
qed

end
